theory Spec2Isabelle
  imports Complex_Main "HOL-Library.Char_ord" "HOL-Library.List_Lexorder"
begin

section \<open>Python strings\<close>

text \<open>
  A Python \<^verbatim>\<open>str\<close> is a sequence of Unicode code points, so a string is a list of
  natural numbers here and \<open>length\<close> counts what \<^verbatim>\<open>len\<close> counts. The ASCII range is
  written out; what Python's Unicode database says about the code points from 128 on
  (which of them \<^verbatim>\<open>\w\<close> matches, what \<^verbatim>\<open>str.upper\<close> makes of them, which
  \<^verbatim>\<open>str.strip\<close> removes, which are alphabetic) is a parameter of the model, the
  record \<open>unicode\<close>. \<^verbatim>\<open>str.lower\<close> depends on the context of a code point (the
  final sigma), so it is a function of the whole string.
\<close>

type_synonym codepoint = nat
type_synonym ustr = "codepoint list"

definition ascii :: "string \<Rightarrow> ustr" where
  "ascii s = map of_char s"

record unicode =
  u_word :: "codepoint \<Rightarrow> bool"
  u_upper :: "codepoint \<Rightarrow> ustr"
  u_space :: "codepoint \<Rightarrow> bool"
  u_alpha :: "codepoint \<Rightarrow> bool"
  u_lower :: "ustr \<Rightarrow> ustr"

definition is_AZ :: "codepoint \<Rightarrow> bool" where
  "is_AZ c \<longleftrightarrow> 65 \<le> c \<and> c \<le> 90"

definition is_az :: "codepoint \<Rightarrow> bool" where
  "is_az c \<longleftrightarrow> 97 \<le> c \<and> c \<le> 122"

definition is_digit :: "codepoint \<Rightarrow> bool" where
  "is_digit c \<longleftrightarrow> 48 \<le> c \<and> c \<le> 57"

text \<open>\<^verbatim>\<open>\w\<close> of a \<^verbatim>\<open>str\<close> pattern: alphanumeric or the underscore (95).\<close>

definition is_word :: "'u unicode_scheme \<Rightarrow> codepoint \<Rightarrow> bool" where
  "is_word U c =
     (if c < 128 then is_AZ c \<or> is_az c \<or> is_digit c \<or> c = 95 else u_word U c)"

text \<open>\<^verbatim>\<open>str.upper\<close>: one code point may become several (the sharp s becomes SS).\<close>

definition upper_cp :: "'u unicode_scheme \<Rightarrow> codepoint \<Rightarrow> ustr" where
  "upper_cp U c = (if c < 128 then [if is_az c then c - 32 else c] else u_upper U c)"

definition upper :: "'u unicode_scheme \<Rightarrow> ustr \<Rightarrow> ustr" where
  "upper U t = concat (map (upper_cp U) t)"

text \<open>\<^verbatim>\<open>str.isspace\<close> of one code point, and \<^verbatim>\<open>str.strip()\<close>.\<close>

definition is_space :: "'u unicode_scheme \<Rightarrow> codepoint \<Rightarrow> bool" where
  "is_space U c =
     (if c < 128 then (9 \<le> c \<and> c \<le> 13) \<or> (28 \<le> c \<and> c \<le> 32) else u_space U c)"

definition strip :: "'u unicode_scheme \<Rightarrow> ustr \<Rightarrow> ustr" where
  "strip U t = rev (dropWhile (is_space U) (rev (dropWhile (is_space U) t)))"

text \<open>\<^verbatim>\<open>str.isalpha\<close>: at least one code point, all of them alphabetic.\<close>

definition is_alpha_cp :: "'u unicode_scheme \<Rightarrow> codepoint \<Rightarrow> bool" where
  "is_alpha_cp U c = (if c < 128 then is_AZ c \<or> is_az c else u_alpha U c)"

definition isalpha :: "'u unicode_scheme \<Rightarrow> ustr \<Rightarrow> bool" where
  "isalpha U t \<longleftrightarrow> t \<noteq> [] \<and> list_all (is_alpha_cp U) t"

text \<open>The tables used for concrete ASCII inputs: no word character, space or letter
  beyond ASCII, \<^verbatim>\<open>upper\<close> leaves the other code points alone, and \<^verbatim>\<open>lower\<close>
  maps A-Z to a-z.\<close>

definition ascii_tables :: unicode where
  "ascii_tables =
     \<lparr>u_word = (\<lambda>_. False), u_upper = (\<lambda>c. [c]), u_space = (\<lambda>_. False),
      u_alpha = (\<lambda>_. False), u_lower = map (\<lambda>c. if is_AZ c then c + 32 else c)\<rparr>"


section \<open>Mention extractor (etl/reddit\_crawler\_stock.py)\<close>

subsection \<open>\<^verbatim>\<open>TICKER_RE = re.compile(r"\b\$?([A-Z]{1,5})\b")\<close>\<close>

text \<open>
  The matcher walks the string from left to right and sees the code point before the
  current position (\<open>None\<close> at the start) and the rest of the string.
  \<^verbatim>\<open>\b\<close> holds where exactly one of the two neighbours is a word character; the
  start and the end of the string count as non-word.
\<close>

definition word_boundary :: "'u unicode_scheme \<Rightarrow> codepoint option \<Rightarrow> ustr \<Rightarrow> bool" where
  "word_boundary U prev s =
     ((case prev of None \<Rightarrow> False | Some c \<Rightarrow> is_word U c)
      \<noteq> (case s of [] \<Rightarrow> False | c # _ \<Rightarrow> is_word U c))"

text \<open>
  \<^verbatim>\<open>([A-Z]{1,5})\b\<close> at the head of \<open>s\<close>: the greedy repetition takes as many
  letters as it can, up to five, and gives them back one at a time until the boundary
  holds. The result is the number of letters of the group.
\<close>

definition letters_then_boundary :: "'u unicode_scheme \<Rightarrow> ustr \<Rightarrow> nat option" where
  "letters_then_boundary U s =
     find (\<lambda>n. n \<le> length s \<and> list_all is_AZ (take n s)
                \<and> word_boundary U (Some (last (take n s))) (drop n s))
          [5, 4, 3, 2, 1]"

text \<open>
  One match attempt at a position: the boundary, then \<^verbatim>\<open>\$?\<close> (greedy: with the
  dollar sign, code point 36, first, and without it when the rest fails with it), then
  the group. The result is the group and the number of code points the match spans.
\<close>

definition match_at ::
  "'u unicode_scheme \<Rightarrow> codepoint option \<Rightarrow> ustr \<Rightarrow> (ustr \<times> nat) option" where
  "match_at U prev s =
     (if \<not> word_boundary U prev s then None
      else case (case s of
                   [] \<Rightarrow> None
                 | c # s' \<Rightarrow>
                     if c = 36
                     then map_option (\<lambda>n. (take n s', Suc n)) (letters_then_boundary U s')
                     else None) of
             Some r \<Rightarrow> Some r
           | None \<Rightarrow> map_option (\<lambda>n. (take n s, n)) (letters_then_boundary U s))"

lemma letters_then_boundary_range:
  "letters_then_boundary U s = Some n \<Longrightarrow> 1 \<le> n \<and> n \<le> 5 \<and> n \<le> length s"
  unfolding letters_then_boundary_def by (auto split: if_splits)

lemma match_at_consumes:
  "match_at U prev s = Some (g, n) \<Longrightarrow> 1 \<le> n \<and> n \<le> length s"
  unfolding match_at_def
  by (auto split: if_splits list.splits option.splits dest!: letters_then_boundary_range)

text \<open>
  \<^verbatim>\<open>TICKER_RE.findall\<close>: the groups of the non-overlapping matches, scanning from the
  left. After a match the scan goes on where the match ended; where no match starts, it
  moves one code point on.
\<close>

function findall_from :: "'u unicode_scheme \<Rightarrow> codepoint option \<Rightarrow> ustr \<Rightarrow> ustr list" where
  "findall_from U prev s =
     (case match_at U prev s of
        Some (g, n) \<Rightarrow> g # findall_from U (Some (last (take n s))) (drop n s)
      | None \<Rightarrow> (case s of [] \<Rightarrow> [] | c # s' \<Rightarrow> findall_from U (Some c) s'))"
  by pat_completeness auto
termination
proof (relation "measure (\<lambda>(U, prev, s). length s)")
  show "wf (measure (\<lambda>(U, prev, s). length s))" by simp
next
  fix U :: "'u unicode_scheme" and prev s x2 x y
  assume "match_at U prev s = Some x2" "(x, y) = x2"
  then have "1 \<le> y \<and> y \<le> length s"
    using match_at_consumes[of U prev s x y] by simp
  then show "((U, Some (last (take y s)), drop y s), U, prev, s)
      \<in> measure (\<lambda>(U, prev, s). length s)"
    by auto
next
  fix U :: "'u unicode_scheme" and prev :: "codepoint option" and s :: ustr and x21 x22
  assume "s = x21 # x22"
  then show "((U, Some x21, x22), U, prev, s) \<in> measure (\<lambda>(U, prev, s). length s)"
    by simp
qed

declare findall_from.simps [simp del]

definition findall :: "'u unicode_scheme \<Rightarrow> ustr \<Rightarrow> ustr list" where
  "findall U s = findall_from U None s"

subsection \<open>\<^verbatim>\<open>AMBIGUOUS\<close> and \<^verbatim>\<open>extract_mentions\<close>\<close>

definition AMBIGUOUS :: "ustr set" where
  "AMBIGUOUS = set (map ascii
     [''YOU'', ''ON'', ''T'', ''BE'', ''SO'', ''UP'', ''AS'', ''OR'', ''CAN'', ''HAS'',
      ''NOW'', ''HE'', ''BY'', ''AN'', ''AND'', ''AM'', ''ANY'', ''BEAT'', ''AGO'',
      ''IS'', ''WHERE'', ''NOT'', ''BRO'', ''SAY'', ''POST'', ''PLAY'', ''DAY'', ''SEE'',
      ''NEXT'', ''WELL'', ''WWW'', ''WAY'', ''HOPE'', ''BULL'', ''CARE'', ''CASH'',
      ''COOK'', ''COST'', ''LUCK'', ''OP'', ''MAN'', ''MOVE'', ''TOP'', ''JOB'', ''ELSE'',
      ''EVER'', ''FLOW'', ''LOW'', ''LOT'', ''REAL'', ''PUMP'', ''ROOT'', ''HIT'',
      ''NICE'', ''RUN'', ''NEAR'', ''BIT'', ''TWO'', ''ONE'', ''ADD'', ''BASE'', ''HUT'',
      ''PAY'', ''TRUE'', ''WTF'', ''GAIN'', ''AREN'', ''DEEP'', ''CUZ'', ''EAT'', ''FACT'',
      ''LINE'', ''APP'', ''WOW'', ''AIN'', ''EDIT'', ''EXP'', ''FAT'', ''PLUS'', ''BILL'',
      ''DRUG'', ''MAX'', ''NET'', ''AI'', ''K'', ''F'', ''VS'', ''LINK'', ''FORM''])"

definition extract_mentions :: "'u unicode_scheme \<Rightarrow> ustr \<Rightarrow> ustr set \<Rightarrow> ustr list" where
  "extract_mentions U text_in allowed =
     (let text_u = upper U text_in
      in [m \<leftarrow> findall U text_u. m \<in> allowed \<and> m \<notin> AMBIGUOUS])"


subsection \<open>Token candidates, as the specification words them\<close>

text \<open>
  The specification calls a token candidate an occurrence of the pattern "a word
  boundary, an optional leading dollar sign, then 1 to 5 uppercase letters, then a word
  boundary". The captured group never holds the dollar sign, and a letter that follows
  a dollar sign has a word boundary in front of it, so the occurrences of a symbol are
  the positions of the text at which a word boundary is followed by \<open>n\<close> uppercase
  letters, \<open>1 \<le> n \<le> 5\<close>, and a word boundary. \<open>token_candidates\<close> lists them
  position by position, from left to right, with no reference to how a regular
  expression engine searches (leftmost match, greedy repetition, backtracking, scan
  resumed behind a match).
\<close>

definition starts_candidate :: "'u unicode_scheme \<Rightarrow> ustr \<Rightarrow> nat \<Rightarrow> bool" where
  "starts_candidate U s n \<longleftrightarrow>
     n \<le> length s \<and> list_all is_AZ (take n s)
     \<and> word_boundary U (Some (last (take n s))) (drop n s)"

definition candidate_here :: "'u unicode_scheme \<Rightarrow> codepoint option \<Rightarrow> ustr \<Rightarrow> ustr list" where
  "candidate_here U prev s =
     (if word_boundary U prev s
      then map (\<lambda>n. take n s) [n \<leftarrow> [1..<6]. starts_candidate U s n]
      else [])"

fun candidates_from :: "'u unicode_scheme \<Rightarrow> codepoint option \<Rightarrow> ustr \<Rightarrow> ustr list" where
  "candidates_from U prev [] = []"
| "candidates_from U prev (c # s) =
     candidate_here U prev (c # s) @ candidates_from U (Some c) s"

definition token_candidates :: "'u unicode_scheme \<Rightarrow> ustr \<Rightarrow> ustr list" where
  "token_candidates U t = candidates_from U None t"


section \<open>Whitelist builder (script/build\_ticker\_list.py)\<close>

subsection \<open>\<^verbatim>\<open>clean\<close>\<close>

definition KEEP_SINGLE :: "ustr set" where
  "KEEP_SINGLE = set (map ascii [''F'', ''T'', ''O'', ''K''])"

definition MANUAL_STOP :: "ustr set" where
  "MANUAL_STOP = set (map ascii
     [''ALL'', ''ARE'', ''BUY'', ''CALL'', ''CEO'', ''CFO'', ''MOON'', ''OPEN'', ''PLAN'',
      ''SELL'', ''USA'', ''NEW'', ''GOOD'', ''LOVE'', ''YOLO'', ''DD'', ''BIG'', ''DAY'',
      ''OUT''])"

text \<open>
  \<^verbatim>\<open>_looks_like_word(sym)\<close> is \<^verbatim>\<open>zipf_frequency(sym.lower(), "en") > 4.0\<close>. The
  frequency table belongs to the library wordfreq, so \<open>zipf_frequency\<close> is a
  parameter: any function from strings to reals.
\<close>

definition looks_like_word :: "'u unicode_scheme \<Rightarrow> (ustr \<Rightarrow> real) \<Rightarrow> ustr \<Rightarrow> bool" where
  "looks_like_word U zipf_frequency symb \<longleftrightarrow> zipf_frequency (u_lower U symb) > 4.0"

text \<open>\<^verbatim>\<open>symbol.strip().upper().replace(".", "/")\<close>: the full stop is 46, the slash 47.\<close>

definition normalise :: "'u unicode_scheme \<Rightarrow> ustr \<Rightarrow> ustr" where
  "normalise U symbol = map (\<lambda>c. if c = 46 then 47 else c) (upper U (strip U symbol))"

text \<open>\<^verbatim>\<open>left, _, right = sym.partition("/")\<close>, called where the slash is in \<^verbatim>\<open>sym\<close>:
  the split is at the first slash.\<close>

definition partition_slash :: "ustr \<Rightarrow> ustr \<times> ustr" where
  "partition_slash symb =
     (takeWhile (\<lambda>c. c \<noteq> 47) symb, drop 1 (dropWhile (\<lambda>c. c \<noteq> 47) symb))"

text \<open>
  One round of the loop of \<open>clean\<close> on the normalised symbol: \<open>True\<close> where the round
  reaches one of the two \<^verbatim>\<open>out.add(sym)\<close>, \<open>False\<close> where it leaves through a
  \<^verbatim>\<open>continue\<close>. The branches keep the order of the source.
\<close>

definition clean_keeps :: "'u unicode_scheme \<Rightarrow> (ustr \<Rightarrow> real) \<Rightarrow> ustr \<Rightarrow> bool" where
  "clean_keeps U zipf_frequency symb =
     (if length symb = 1 then symb \<in> KEEP_SINGLE
      else if 47 \<in> set symb
              \<and> (case partition_slash symb of
                    (left, right) \<Rightarrow>
                      \<not> (1 \<le> length left \<and> length left \<le> 4 \<and> length right = 1))
           then False
      else if 47 \<notin> set symb \<and> \<not> (2 \<le> length symb \<and> length symb \<le> 5) then False
      else if \<not> (isalpha U symb \<or> 47 \<in> set symb) then False
      else if symb \<in> MANUAL_STOP \<or> looks_like_word U zipf_frequency symb then False
      else True)"

definition clean :: "'u unicode_scheme \<Rightarrow> (ustr \<Rightarrow> real) \<Rightarrow> ustr list \<Rightarrow> ustr set" where
  "clean U zipf_frequency raw =
     fold (\<lambda>symbol out.
             let symb = normalise U symbol
             in if clean_keeps U zipf_frequency symb then insert symb out else out)
          raw {}"

text \<open>
  The shape the specification gives a slash symbol: the left segment matches
  \<^verbatim>\<open>[A-Z]{1,4}\<close> and the right segment matches \<^verbatim>\<open>[A-Z]{1}\<close>.
\<close>

definition slash_shape :: "ustr \<Rightarrow> bool" where
  "slash_shape symb =
     (case partition_slash symb of
        (left, right) \<Rightarrow>
          1 \<le> length left \<and> length left \<le> 4 \<and> list_all is_AZ left
          \<and> length right = 1 \<and> list_all is_AZ right)"


subsection \<open>The decorator \<^verbatim>\<open>retry\<close>\<close>

text \<open>
  The wrapped function has effects, so its calls may differ: \<open>fn k\<close> is what the
  \<open>k\<close>-th call does, counted from 1. A call returns a value, raises an instance of
  \<^verbatim>\<open>Exception\<close>, which the handler \<^verbatim>\<open>except Exception\<close> catches, or raises another
  \<^verbatim>\<open>BaseException\<close> (a keyboard interrupt), which it does not catch.
\<close>

datatype ('x, 'a) call = Value 'a | Exception 'x | BaseException 'x

text \<open>
  The wrapper returns the value of a call, raises an exception, or leaves the loop at
  the end of \<^verbatim>\<open>range(1, max_tries + 1)\<close> and returns \<^verbatim>\<open>None\<close>.
\<close>

datatype ('x, 'a) outcome = Returned 'a | Raised 'x | ReturnedNone

text \<open>
  What the wrapper did: the number of calls of \<open>fn\<close> and the delays it passed to
  \<^verbatim>\<open>time.sleep\<close>, in order. A delay is a Python float, a value of the type \<open>'f\<close>.
\<close>

record 'f retry_log =
  calls :: nat
  sleeps :: "'f list"

text \<open>
  Two things belong to Python and not to the decorator, and are parameters of the
  model: \<open>fmul pause att\<close> is the float that the expression \<^verbatim>\<open>pause * att\<close> evaluates
  to, and \<open>sleep d\<close> is what \<^verbatim>\<open>time.sleep(d)\<close> does, \<open>None\<close> where it returns after
  the delay and \<open>Some e\<close> where it raises \<open>e\<close> (a negative delay, a delay too large for
  a timestamp). The call of \<^verbatim>\<open>time.sleep\<close> stands in the handler, so what it raises
  leaves the wrapper.
\<close>

function retry_loop ::
  "('f \<Rightarrow> nat \<Rightarrow> 'f) \<Rightarrow> ('f \<Rightarrow> 'x option) \<Rightarrow> (nat \<Rightarrow> ('x, 'a) call) \<Rightarrow> int \<Rightarrow> 'f \<Rightarrow> nat
     \<Rightarrow> 'f retry_log \<Rightarrow> ('x, 'a) outcome \<times> 'f retry_log" where
  "retry_loop fmul sleep fn max_tries pause att st =
     (if \<not> int att \<le> max_tries then (ReturnedNone, st)
      else let st1 = st\<lparr>calls := calls st + 1\<rparr>
           in case fn (calls st + 1) of
                Value v \<Rightarrow> (Returned v, st1)
              | BaseException x \<Rightarrow> (Raised x, st1)
              | Exception x \<Rightarrow>
                  if int att = max_tries then (Raised x, st1)
                  else let st2 = st1\<lparr>sleeps := sleeps st1 @ [fmul pause att]\<rparr>
                       in case sleep (fmul pause att) of
                            Some e \<Rightarrow> (Raised e, st2)
                          | None \<Rightarrow> retry_loop fmul sleep fn max_tries pause (att + 1) st2)"
  by pat_completeness auto
termination
  by (relation "measure (\<lambda>(fmul, sleep, fn, max_tries, pause, att, st).
        nat (max_tries + 1 - int att))") auto

declare retry_loop.simps [simp del]

definition retry ::
  "('f \<Rightarrow> nat \<Rightarrow> 'f) \<Rightarrow> ('f \<Rightarrow> 'x option) \<Rightarrow> int \<Rightarrow> 'f \<Rightarrow> (nat \<Rightarrow> ('x, 'a) call)
     \<Rightarrow> ('x, 'a) outcome \<times> 'f retry_log" where
  "retry fmul sleep max_tries pause fn =
     retry_loop fmul sleep fn max_tries pause 1 \<lparr>calls = 0, sleeps = []\<rparr>"

text \<open>
  The decorator is always applied as \<^verbatim>\<open>@retry()\<close>, with the defaults
  \<^verbatim>\<open>max_tries = 3\<close> and \<^verbatim>\<open>pause = 3.0\<close>. The products \<^verbatim>\<open>3.0 * 1\<close> and
  \<^verbatim>\<open>3.0 * 2\<close> are the floats 3.0 and 6.0 exactly, and \<^verbatim>\<open>time.sleep\<close> takes both.
  \<open>small_fmul\<close> and \<open>small_sleep\<close> are Python on delays of that size: the product
  is the product, and sleeping for up to a day raises nothing. Beyond that range they
  stand for nothing.
\<close>

definition small_fmul :: "real \<Rightarrow> nat \<Rightarrow> real" where
  "small_fmul pause att = pause * real att"

definition small_sleep :: "real \<Rightarrow> nat option" where
  "small_sleep d = (if 0 \<le> d \<and> d \<le> 86400 then None else Some 0)"

subsection \<open>\<^verbatim>\<open>verify_with_yf\<close>\<close>

text \<open>
  The module variable \<^verbatim>\<open>yf\<close> is \<^verbatim>\<open>None\<close> where yfinance cannot be imported;
  otherwise \<open>yf s\<close> is what \<^verbatim>\<open>bool(yf.Ticker(s).fast_info)\<close> does for the symbol
  \<open>s\<close>: a truthy result, a falsy result or an \<^verbatim>\<open>Exception\<close>. Each symbol is looked
  up once, so the answers of the lookups, in whatever order the thread pool runs them,
  are a function of the symbol. The set \<^verbatim>\<open>symbols\<close> is the list of its elements in the
  order of its iteration.
\<close>

datatype lookup = Truthy | Falsy | LookupException

definition ok :: "('s \<Rightarrow> lookup) \<Rightarrow> 's \<Rightarrow> bool" where
  "ok yf s = (case yf s of Truthy \<Rightarrow> True | Falsy \<Rightarrow> False | LookupException \<Rightarrow> False)"

text \<open>\<^verbatim>\<open>ThreadPoolExecutor(workers)\<close> raises a \<^verbatim>\<open>ValueError\<close> unless \<open>workers\<close> is
  positive; the default is 32, and the only caller leaves it at that.\<close>

datatype verify_error = ValueError

definition verify_with_yf ::
  "('s \<Rightarrow> lookup) option \<Rightarrow> 's list \<Rightarrow> int \<Rightarrow> verify_error + 's set" where
  "verify_with_yf yf symbols workers =
     (case yf of
        None \<Rightarrow> Inr (set symbols)
      | Some look \<Rightarrow>
          if workers \<le> 0 then Inl ValueError
          else Inr (fold (\<lambda>(symb, is_ok) good. if is_ok then insert symb good else good)
                         (zip symbols (map (ok look) symbols)) {}))"


section \<open>Aggregator (etl/reddit\_crawler\_stock.py)\<close>

subsection \<open>The tables\<close>

text \<open>
  Rows are records and a table is the list of its rows. A column that may be
  \<^verbatim>\<open>NULL\<close> has an option type. Of the timestamp \<^verbatim>\<open>created_at\<close> the statements read
  the date only, so a row carries \<^verbatim>\<open>DATE(created_at)\<close>. The columns that the two
  statements below neither read nor write (in \<open>daily_stats\<close> the row id and the
  sentiment columns, in \<open>trend_alerts\<close> the time of day) are the field \<open>rest\<close> of a
  row. In \<open>posts\<close> and \<open>comments\<close> the column
  \<^verbatim>\<open>id\<close> is the primary key, so each of the two tables is a map from the id to the
  column \<^verbatim>\<open>author_id\<close>, which may be \<^verbatim>\<open>NULL\<close>.
\<close>

type_synonym sql_date = string

record mention =
  m_symbol :: string
  m_post_id :: "string option"
  m_comment_id :: "string option"
  m_created :: "sql_date option"

record 'x daily_stat =
  ds_symbol :: string
  ds_date :: sql_date
  ds_mention_count :: "int option"
  ds_post_mentions :: "int option"
  ds_comment_mentions :: "int option"
  ds_unique_authors :: "int option"
  ds_rest :: 'x

text \<open>
  The columns of \<open>trend_alerts\<close> are those that expected\_schema.py lists. The column
  \<^verbatim>\<open>message\<close> holds the f-string
  \<^verbatim>\<open>f"{symbol} wurde heute bereits {cnt}x erwaehnt."\<close>, kept here as the pair of the
  two values it prints; \<open>ta_created\<close> is the date of \<^verbatim>\<open>created_at\<close> and \<open>ta_rest\<close>
  its time of day.
\<close>

record 'y trend_alert =
  ta_id :: int
  ta_symbol :: string
  ta_alert_type :: string
  ta_threshold :: int
  ta_current_value :: int
  ta_percent_change :: "real option"
  ta_window_minutes :: int
  ta_message :: "string \<times> int"
  ta_priority :: string
  ta_active :: "int option"
  ta_created :: sql_date
  ta_closed_at :: "string option"
  ta_rest :: 'y

record ('x, 'y) db =
  mentions :: "mention list"
  posts :: "string \<rightharpoonup> string option"
  comments :: "string \<rightharpoonup> string option"
  daily_stats :: "'x daily_stat list"
  trend_alerts :: "'y trend_alert list"

subsection \<open>\<^verbatim>\<open>update_daily_stats\<close>\<close>

text \<open>
  The \<^verbatim>\<open>SELECT\<close>: the mentions of today, each joined to at most one post and at most
  one comment, grouped by the symbol. \<open>author_of\<close> is
  \<^verbatim>\<open>COALESCE(p.author_id, c.author_id)\<close> of the joined row.
\<close>

definition author_of :: "('x, 'y) db \<Rightarrow> mention \<Rightarrow> string option" where
  "author_of d m =
     (case (case m_post_id m of
              None \<Rightarrow> None
            | Some pid \<Rightarrow> (case posts d pid of None \<Rightarrow> None | Some a \<Rightarrow> a)) of
        Some a \<Rightarrow> Some a
      | None \<Rightarrow>
          (case m_comment_id m of
             None \<Rightarrow> None
           | Some cid \<Rightarrow> (case comments d cid of None \<Rightarrow> None | Some a \<Rightarrow> a)))"

record stat_row =
  sr_symbol :: string
  sr_date :: sql_date
  sr_mention_count :: int
  sr_post_mentions :: int
  sr_comment_mentions :: int
  sr_unique_authors :: int

text \<open>
  One row of the result for the group of the symbol \<open>s\<close>: \<^verbatim>\<open>COUNT(*)\<close>, the two
  sums of the tests \<^verbatim>\<open>IS NOT NULL\<close>, and \<^verbatim>\<open>COUNT(DISTINCT ...)\<close>, which counts the
  distinct values that are not \<^verbatim>\<open>NULL\<close>. The date of the row is the string \<open>today\<close>
  that Python formats into the statement; the rows are filtered by \<open>now\<close>, the
  \<^verbatim>\<open>DATE('now')\<close> of the database. The groups come in the order of their
  symbols; the order decides nothing but the place of a new row in the table.
\<close>

definition group_row ::
  "('x, 'y) db \<Rightarrow> sql_date \<Rightarrow> mention list \<Rightarrow> string \<Rightarrow> stat_row" where
  "group_row d today ms s =
     (let g = [m \<leftarrow> ms. m_symbol m = s]
      in \<lparr>sr_symbol = s, sr_date = today,
          sr_mention_count = int (length g),
          sr_post_mentions = int (length [m \<leftarrow> g. m_post_id m \<noteq> None]),
          sr_comment_mentions = int (length [m \<leftarrow> g. m_comment_id m \<noteq> None]),
          sr_unique_authors = int (length (remdups (List.map_filter (author_of d) g)))\<rparr>)"

definition select_stats ::
  "('x, 'y) db \<Rightarrow> sql_date \<Rightarrow> sql_date \<Rightarrow> stat_row list" where
  "select_stats d today now =
     (let ms = [m \<leftarrow> mentions d. m_created m = Some now]
      in map (group_row d today ms) (sort (remdups (map m_symbol ms))))"

text \<open>
  \<^verbatim>\<open>INSERT ... ON CONFLICT(symbol,date) DO UPDATE SET ...\<close> of one row: where the
  table has a row of the same symbol and date, the four counts of that row are
  overwritten with the new ones; otherwise the row is inserted, and the database fills
  in its other columns (\<open>fresh\<close>: the next id and the defaults).
\<close>

definition ds_key :: "'x daily_stat \<Rightarrow> string \<times> sql_date" where
  "ds_key r = (ds_symbol r, ds_date r)"

definition sr_key :: "stat_row \<Rightarrow> string \<times> sql_date" where
  "sr_key row = (sr_symbol row, sr_date row)"

definition overwrite_counts :: "stat_row \<Rightarrow> 'x daily_stat \<Rightarrow> 'x daily_stat" where
  "overwrite_counts row r =
     r\<lparr>ds_mention_count := Some (sr_mention_count row),
       ds_post_mentions := Some (sr_post_mentions row),
       ds_comment_mentions := Some (sr_comment_mentions row),
       ds_unique_authors := Some (sr_unique_authors row)\<rparr>"

definition upsert_stat ::
  "('x daily_stat list \<Rightarrow> 'x) \<Rightarrow> stat_row \<Rightarrow> 'x daily_stat list \<Rightarrow> 'x daily_stat list" where
  "upsert_stat fresh row tbl =
     (if \<exists>r \<in> set tbl. ds_key r = sr_key row
      then map (\<lambda>r. if ds_key r = sr_key row then overwrite_counts row r else r) tbl
      else tbl @ [\<lparr>ds_symbol = sr_symbol row, ds_date = sr_date row,
                   ds_mention_count = Some (sr_mention_count row),
                   ds_post_mentions = Some (sr_post_mentions row),
                   ds_comment_mentions = Some (sr_comment_mentions row),
                   ds_unique_authors = Some (sr_unique_authors row),
                   ds_rest = fresh tbl\<rparr>])"

definition update_daily_stats ::
  "('x daily_stat list \<Rightarrow> 'x) \<Rightarrow> sql_date \<Rightarrow> sql_date \<Rightarrow> ('x, 'y) db
     \<Rightarrow> ('x, 'y) db" where
  "update_daily_stats fresh today now d =
     d\<lparr>daily_stats := fold (upsert_stat fresh) (select_stats d today now) (daily_stats d)\<rparr>"

text \<open>
  A table is settled for a row of the \<^verbatim>\<open>SELECT\<close> where it holds a row of that symbol
  and date and every such row carries the four counts of the selected row.
\<close>

definition has_counts :: "stat_row \<Rightarrow> 'x daily_stat \<Rightarrow> bool" where
  "has_counts row r \<longleftrightarrow>
     ds_mention_count r = Some (sr_mention_count row)
     \<and> ds_post_mentions r = Some (sr_post_mentions row)
     \<and> ds_comment_mentions r = Some (sr_comment_mentions row)
     \<and> ds_unique_authors r = Some (sr_unique_authors row)"

definition settled :: "stat_row \<Rightarrow> 'x daily_stat list \<Rightarrow> bool" where
  "settled row tbl \<longleftrightarrow>
     (\<exists>r \<in> set tbl. ds_key r = sr_key row)
     \<and> (\<forall>r \<in> set tbl. ds_key r = sr_key row \<longrightarrow> has_counts row r)"

subsection \<open>\<^verbatim>\<open>update_trend_alerts\<close>\<close>

text \<open>
  The cursor: symbol and count of the rows of \<open>daily_stats\<close> of today whose count is
  not \<^verbatim>\<open>NULL\<close> and reaches the threshold.
\<close>

definition select_hits :: "('x, 'y) db \<Rightarrow> sql_date \<Rightarrow> int \<Rightarrow> (string \<times> int) list" where
  "select_hits d now threshold =
     List.map_filter
       (\<lambda>r. case ds_mention_count r of
               None \<Rightarrow> None
             | Some cnt \<Rightarrow>
                 if ds_date r = now \<and> cnt \<ge> threshold then Some (ds_symbol r, cnt) else None)
       (daily_stats d)"

text \<open>
  The row that the loop body inserts. The statement names eight columns; the database
  fills in the others: the id, \<^verbatim>\<open>active\<close> with its default 1, \<^verbatim>\<open>created_at\<close> with
  the current timestamp, whose date is \<open>now\<close>, and \<^verbatim>\<open>closed_at\<close> with
  \<^verbatim>\<open>NULL\<close>.
\<close>

definition alert_row ::
  "int \<Rightarrow> 'y \<Rightarrow> sql_date \<Rightarrow> int \<Rightarrow> string \<times> int \<Rightarrow> 'y trend_alert" where
  "alert_row new_id rest now threshold hit =
     (case hit of
        (symbol, cnt) \<Rightarrow>
          \<lparr>ta_id = new_id, ta_symbol = symbol, ta_alert_type = ''mention_spike'',
           ta_threshold = threshold, ta_current_value = cnt, ta_percent_change = None,
           ta_window_minutes = 1440, ta_message = (symbol, cnt), ta_priority = ''medium'',
           ta_active = Some 1, ta_created = now, ta_closed_at = None, ta_rest = rest\<rparr>)"

text \<open>
  \<^verbatim>\<open>INSERT OR IGNORE\<close>: the row is skipped where it violates a uniqueness constraint
  of the table against a row that is there, and appended otherwise.
\<close>

definition insert_or_ignore ::
  "('r \<Rightarrow> 'r \<Rightarrow> bool) \<Rightarrow> 'r \<Rightarrow> 'r list \<Rightarrow> 'r list" where
  "insert_or_ignore conflict row tbl =
     (if \<exists>r \<in> set tbl. conflict r row then tbl else tbl @ [row])"

text \<open>
  The keys of \<open>trend_alerts\<close>, as expected\_schema.py gives them: the primary key is
  the column \<^verbatim>\<open>id\<close>, the table has no column for the day, and its one index,
  \<^verbatim>\<open>idx_trend_alerts_active\<close>, is named for the column \<^verbatim>\<open>active\<close>. So two rows
  conflict where they have the same id. The statement gives the new row no id, and
  the database takes one that no row has: one more than the largest id in the table,
  and 1 in an empty table.
\<close>

definition pk_conflict :: "'y trend_alert \<Rightarrow> 'y trend_alert \<Rightarrow> bool" where
  "pk_conflict r row \<longleftrightarrow> ta_id r = ta_id row"

definition next_rowid :: "'y trend_alert list \<Rightarrow> int" where
  "next_rowid tbl = (if tbl = [] then 1 else Max (set (map ta_id tbl)) + 1)"

definition update_trend_alerts ::
  "('y trend_alert list \<Rightarrow> 'y) \<Rightarrow> sql_date \<Rightarrow> int \<Rightarrow> ('x, 'y) db \<Rightarrow> ('x, 'y) db" where
  "update_trend_alerts fresh now threshold d =
     d\<lparr>trend_alerts :=
         fold (\<lambda>hit tbl.
                 insert_or_ignore pk_conflict
                   (alert_row (next_rowid tbl) (fresh tbl) now threshold hit) tbl)
              (select_hits d now threshold) (trend_alerts d)\<rparr>"

text \<open>The symbol and the day of an alert.\<close>

definition alert_key :: "'y trend_alert \<Rightarrow> string \<times> sql_date" where
  "alert_key r = (ta_symbol r, ta_created r)"


subsection \<open>Two small databases\<close>

text \<open>
  Four mentions of 2025-08-20 (one of TSLA in a post, three of AAPL in the same post and
  in two comments, one of them without an author) and one mention of the day before;
  \<open>daily_stats\<close> holds a row for AAPL from an earlier run of the day. What the
  database fills into a new row beside the columns above is, for these examples, a
  running number.
\<close>

definition next_id :: "'r list \<Rightarrow> nat" where
  "next_id tbl = length tbl + 1"

definition example_db :: "(nat, nat) db" where
  "example_db =
     \<lparr>mentions =
        [\<lparr>m_symbol = ''TSLA'', m_post_id = Some ''p1'', m_comment_id = None,
          m_created = Some ''2025-08-20''\<rparr>,
         \<lparr>m_symbol = ''AAPL'', m_post_id = Some ''p1'', m_comment_id = None,
          m_created = Some ''2025-08-20''\<rparr>,
         \<lparr>m_symbol = ''AAPL'', m_post_id = None, m_comment_id = Some ''c1'',
          m_created = Some ''2025-08-20''\<rparr>,
         \<lparr>m_symbol = ''AAPL'', m_post_id = None, m_comment_id = Some ''c2'',
          m_created = Some ''2025-08-20''\<rparr>,
         \<lparr>m_symbol = ''GME'', m_post_id = Some ''p0'', m_comment_id = None,
          m_created = Some ''2025-08-19''\<rparr>],
      posts = [''p0'' \<mapsto> Some ''carol'', ''p1'' \<mapsto> Some ''alice''],
      comments = [''c1'' \<mapsto> Some ''alice'', ''c2'' \<mapsto> None],
      daily_stats =
        [\<lparr>ds_symbol = ''AAPL'', ds_date = ''2025-08-20'', ds_mention_count = Some 1,
          ds_post_mentions = Some 1, ds_comment_mentions = Some 0,
          ds_unique_authors = Some 1, ds_rest = 1\<rparr>],
      trend_alerts = []\<rparr>"



section \<open>The regular expression finds the token candidates\<close>

text \<open>
  The search of the regular expression engine and the position-by-position list of
  the specification are the same list, for every string and every Unicode table.
\<close>

lemma is_AZ_word: "is_AZ c \<Longrightarrow> is_word U c"
  by (simp add: is_AZ_def is_word_def)

lemma dollar_not_word: "\<not> is_word U 36"
  by (simp add: is_word_def is_AZ_def is_az_def is_digit_def)

lemma dollar_not_AZ: "\<not> is_AZ 36"
  by (simp add: is_AZ_def)

text \<open>A letter behind a dollar sign has a word boundary in front of it, so the
  optional dollar sign of the pattern adds no occurrence.\<close>

lemma boundary_after_dollar: "is_AZ c \<Longrightarrow> word_boundary U (Some 36) (c # s)"
  by (simp add: word_boundary_def dollar_not_word is_AZ_word)

lemma letters_then_boundary_Some:
  "letters_then_boundary U s = Some n \<Longrightarrow>
     1 \<le> n \<and> n \<le> 5 \<and> n \<le> length s \<and> list_all is_AZ (take n s)
     \<and> word_boundary U (Some (last (take n s))) (drop n s)"
  unfolding letters_then_boundary_def by (auto split: if_splits)

lemma letters_then_boundary_None:
  "letters_then_boundary U s = None \<Longrightarrow> 1 \<le> n \<Longrightarrow> n \<le> 5 \<Longrightarrow> \<not> starts_candidate U s n"
proof -
  assume a: "letters_then_boundary U s = None" and n: "1 \<le> n" "n \<le> 5"
  from n have "n = 1 \<or> n = 2 \<or> n = 3 \<or> n = 4 \<or> n = 5" by arith
  with a show ?thesis
    unfolding letters_then_boundary_def starts_candidate_def
    by (auto split: if_splits)
qed

text \<open>In a run of letters closed by a boundary, only the whole run is a candidate.\<close>

lemma starts_candidate_run:
  assumes g: "g \<noteq> []" "list_all is_AZ g"
    and b: "word_boundary U (Some (last g)) r"
    and n: "1 \<le> n"
  shows "starts_candidate U (g @ r) n \<longleftrightarrow> n = length g"
proof (cases "n = length g")
  case True
  with g b show ?thesis by (simp add: starts_candidate_def)
next
  case False
  have lastw: "is_word U (last g)"
    using g by (auto simp: list_all_iff intro: is_AZ_word)
  show ?thesis
  proof (cases "n < length g")
    case True
    then have tk: "take n (g @ r) = take n g" and dr: "drop n (g @ r) = drop n g @ r"
      by simp_all
    from True n have ne: "take n g \<noteq> []" using g by (cases g) auto
    then have "last (take n g) \<in> set g" by (metis in_set_takeD last_in_set)
    then have w1: "is_word U (last (take n g))"
      using g by (auto simp: list_all_iff intro: is_AZ_word)
    from True obtain x xs where dg: "drop n g = x # xs"
      by (cases "drop n g") auto
    then have "x \<in> set g" by (metis in_set_dropD list.set_intros(1))
    then have w2: "is_word U x" using g by (auto simp: list_all_iff intro: is_AZ_word)
    have "\<not> word_boundary U (Some (last (take n (g @ r)))) (drop n (g @ r))"
      unfolding tk dr dg using w1 w2 by (simp add: word_boundary_def)
    with False show ?thesis by (simp add: starts_candidate_def)
  next
    case ge: False
    with False have gt: "length g < n" by simp
    show ?thesis
    proof (cases r)
      case Nil
      with gt False show ?thesis by (simp add: starts_candidate_def)
    next
      case (Cons x xs)
      with b lastw have "\<not> is_word U x" by (simp add: word_boundary_def)
      then have "\<not> is_AZ x" using is_AZ_word by blast
      moreover have "x \<in> set (take n (g @ r))"
        using gt Cons by (auto simp: take_Cons')
      ultimately have "\<not> list_all is_AZ (take n (g @ r))"
        by (auto simp: list_all_iff)
      with False show ?thesis unfolding starts_candidate_def by blast
    qed
  qed
qed

lemma filter_single:
  "1 \<le> k \<Longrightarrow> k \<le> 5 \<Longrightarrow> (\<And>n. 1 \<le> n \<Longrightarrow> P n \<longleftrightarrow> n = k) \<Longrightarrow> [n \<leftarrow> [1..<6]. P n] = [k::nat]"
proof -
  assume k: "1 \<le> k" "k \<le> 5" and P: "\<And>n. 1 \<le> n \<Longrightarrow> P n \<longleftrightarrow> n = k"
  have "[n \<leftarrow> [1..<6]. P n] = [n \<leftarrow> [1..<6]. n = k]"
    by (rule filter_cong) (auto simp: P)
  also have "\<dots> = [k]"
  proof -
    have u: "[1..<6] = [1, 2, 3, 4, 5::nat]" by (simp add: upt_rec)
    from k have "k = 1 \<or> k = 2 \<or> k = 3 \<or> k = 4 \<or> k = 5" by arith
    then show ?thesis unfolding u by auto
  qed
  finally show ?thesis .
qed

lemma candidate_here_run:
  assumes g: "g \<noteq> []" "list_all is_AZ g" "length g \<le> 5"
    and b: "word_boundary U (Some (last g)) r"
    and p: "word_boundary U prev (g @ r)"
  shows "candidate_here U prev (g @ r) = [g]"
proof -
  have "[n \<leftarrow> [1..<6]. starts_candidate U (g @ r) n] = [length g]"
    using g by (intro filter_single starts_candidate_run[OF g(1,2) b]) (cases g, auto)
  with p show ?thesis by (simp add: candidate_here_def)
qed

lemma candidates_inside_run:
  "list_all is_AZ g \<Longrightarrow> is_AZ c \<Longrightarrow>
   candidates_from U (Some c) (g @ r) = candidates_from U (Some (last (c # g))) r"
proof (induction g arbitrary: c)
  case Nil
  then show ?case by simp
next
  case (Cons x g)
  then have "\<not> word_boundary U (Some c) (x # g @ r)"
    by (simp add: word_boundary_def is_AZ_word)
  then have "candidate_here U (Some c) (x # g @ r) = []"
    by (simp add: candidate_here_def)
  with Cons show ?case by simp
qed

lemma candidates_from_run:
  assumes g: "g \<noteq> []" "list_all is_AZ g" "length g \<le> 5"
    and b: "word_boundary U (Some (last g)) r"
    and p: "word_boundary U prev (g @ r)"
  shows "candidates_from U prev (g @ r) = g # candidates_from U (Some (last g)) r"
proof -
  from g obtain c g' where cg: "g = c # g'" by (cases g) auto
  have "candidates_from U prev (g @ r)
        = candidate_here U prev (g @ r) @ candidates_from U (Some c) (g' @ r)"
    by (simp add: cg)
  also have "candidate_here U prev (g @ r) = [g]"
    by (rule candidate_here_run[OF g b p])
  also have "candidates_from U (Some c) (g' @ r) = candidates_from U (Some (last g)) r"
    using g(2) unfolding cg by (intro candidates_inside_run[unfolded cg]) auto
  finally show ?thesis by simp
qed

lemma match_at_None_no_candidate:
  "match_at U prev s = None \<Longrightarrow> candidate_here U prev s = []"
proof -
  assume m: "match_at U prev s = None"
  show ?thesis
  proof (cases "word_boundary U prev s")
    case False
    then show ?thesis by (simp add: candidate_here_def)
  next
    case True
    with m have "letters_then_boundary U s = None"
      by (auto simp: match_at_def split: option.splits list.splits if_splits)
    then have "[n \<leftarrow> [1..<6]. starts_candidate U s n] = []"
      by (auto simp: filter_empty_conv dest: letters_then_boundary_None)
    then show ?thesis by (simp add: candidate_here_def)
  qed
qed

lemma match_at_Some_candidates:
  assumes m: "match_at U prev s = Some (g, n)"
  shows "candidates_from U prev s = g # candidates_from U (Some (last (take n s))) (drop n s)"
proof -
  from m have wb: "word_boundary U prev s"
    by (auto simp: match_at_def split: if_splits)
  show ?thesis
  proof (cases "\<exists>s' k. s = 36 # s' \<and> letters_then_boundary U s' = Some k")
    case True
    then obtain s' k where s: "s = 36 # s'" and l: "letters_then_boundary U s' = Some k"
      by blast
    from m wb s l have gn: "g = take k s'" "n = Suc k"
      by (auto simp: match_at_def)
    note L = letters_then_boundary_Some[OF l]
    from L have gne: "take k s' \<noteq> []" by auto
    have s'eq: "s' = take k s' @ drop k s'" by simp
    have here: "candidate_here U prev (36 # s') = []"
    proof -
      have "\<And>n. 1 \<le> n \<Longrightarrow> \<not> starts_candidate U (36 # s') n"
        by (auto simp: starts_candidate_def take_Cons' dollar_not_AZ)
      then have "[n \<leftarrow> [1..<6]. starts_candidate U (36 # s') n] = []"
        by (auto simp: filter_empty_conv)
      then show ?thesis by (simp add: candidate_here_def)
    qed
    have hdw: "is_word U (hd (take k s'))"
      using L gne by (cases "take k s'") (auto intro: is_AZ_word)
    have p: "word_boundary U (Some 36) (take k s' @ drop k s')"
      using gne hdw by (cases "take k s'") (auto simp: word_boundary_def dollar_not_word)
    have "candidates_from U (Some 36) (take k s' @ drop k s')
          = take k s' # candidates_from U (Some (last (take k s'))) (drop k s')"
      using L gne by (intro candidates_from_run[OF _ _ _ _ p]) auto
    then have "candidates_from U (Some 36) s'
          = take k s' # candidates_from U (Some (last (take k s'))) (drop k s')"
      by simp
    moreover have "last (take n s) = last (take k s')"
      using gne by (simp add: s gn)
    ultimately show ?thesis using here by (simp add: s gn)
  next
    case False
    with m wb have l: "letters_then_boundary U s = Some n" and gn: "g = take n s"
      by (auto simp: match_at_def split: list.splits if_splits option.splits)
    note L = letters_then_boundary_Some[OF l]
    from L have gne: "take n s \<noteq> []" by auto
    have p: "word_boundary U prev (take n s @ drop n s)" using wb by simp
    have "candidates_from U prev (take n s @ drop n s)
          = take n s # candidates_from U (Some (last (take n s))) (drop n s)"
      using L gne by (intro candidates_from_run[OF _ _ _ _ p]) auto
    then show ?thesis by (simp add: gn)
  qed
qed

lemma findall_from_eq_candidates:
  "findall_from U prev s = candidates_from U prev s"
proof (induction U prev s rule: findall_from.induct)
  case (1 U prev s)
  show ?case
  proof (cases "match_at U prev s")
    case None
    show ?thesis
    proof (cases s)
      case Nil
      with None show ?thesis by (simp add: findall_from.simps)
    next
      case (Cons c s')
      with None 1(1)[OF None Cons] match_at_None_no_candidate[OF None]
      show ?thesis by (simp add: findall_from.simps)
    qed
  next
    case (Some r)
    obtain g n where r: "r = (g, n)" by (cases r)
    from 1(2)[OF Some r[symmetric]] match_at_Some_candidates[OF Some[unfolded r]]
    show ?thesis using Some r by (simp add: findall_from.simps)
  qed
qed


lemma findall_eq_token_candidates: "findall U t = token_candidates U t"
  by (simp only: findall_def token_candidates_def findall_from_eq_candidates)

lemma count_list_filter:
  "count_list (filter P xs) x = (if P x then count_list xs x else 0)"
  by (induction xs) auto

lemma distinct_count_list: "distinct xs \<longleftrightarrow> (\<forall>x. count_list xs x \<le> 1)"
proof (induction xs)
  case Nil
  then show ?case by simp
next
  case (Cons a xs)
  show ?case
  proof
    assume d: "distinct (a # xs)"
    then have "count_list xs a = 0" by (simp add: count_list_0_iff)
    with d Cons show "\<forall>x. count_list (a # xs) x \<le> 1" by auto
  next
    assume c: "\<forall>x. count_list (a # xs) x \<le> 1"
    then have "count_list (a # xs) a \<le> 1" by blast
    then have "a \<notin> set xs" by (simp add: count_list_0_iff)
    moreover have "\<forall>x. count_list xs x \<le> 1"
    proof
      fix x
      from c have "count_list (a # xs) x \<le> 1" by blast
      then show "count_list xs x \<le> 1" by (simp split: if_splits)
    qed
    ultimately show "distinct (a # xs)" using Cons by simp
  qed
qed

lemma candidates_from_shape:
  "m \<in> set (candidates_from U prev s) \<Longrightarrow>
     1 \<le> length m \<and> length m \<le> 5 \<and> list_all is_AZ m"
proof (induction s arbitrary: prev)
  case Nil
  then show ?case by simp
next
  case (Cons c s)
  from Cons.prems consider
    (here) "m \<in> set (candidate_here U prev (c # s))" | (later) "m \<in> set (candidates_from U (Some c) s)"
    by auto
  then show ?case
  proof cases
    case here
    then obtain n where "1 \<le> n" "n < 6" "starts_candidate U (c # s) n" "m = take n (c # s)"
      by (auto simp: candidate_here_def split: if_splits)
    then show ?thesis by (auto simp: starts_candidate_def)
  next
    case later
    then show ?thesis by (rule Cons.IH)
  qed
qed

section \<open>Properties of the mention extractor\<close>

text \<open>
  C1. Whatever the text and the whitelist, every element of the list that
  \<open>extract_mentions\<close> returns is a member of the whitelist and is not a member of
  \<open>AMBIGUOUS\<close>.
\<close>

theorem extract_mentions_allowed_not_ambiguous:
  "\<forall>m \<in> set (extract_mentions U text_in allowed). m \<in> allowed \<and> m \<notin> AMBIGUOUS"
  by (simp add: extract_mentions_def)

theorem extract_mentions_allowed_not_ambiguous_witness:
  "extract_mentions ascii_tables (ascii ''Buy $AAPL or go all-in on TSLA!'')
      {ascii ''AAPL'', ascii ''TSLA'', ascii ''ON''} = [ascii ''AAPL'', ascii ''TSLA'']
   \<and> ascii ''TSLA'' \<in> {ascii ''AAPL'', ascii ''TSLA'', ascii ''ON''}
   \<and> ascii ''TSLA'' \<notin> AMBIGUOUS"
proof -
  have r: "extract_mentions ascii_tables (ascii ''Buy $AAPL or go all-in on TSLA!'')
      {ascii ''AAPL'', ascii ''TSLA'', ascii ''ON''} = [ascii ''AAPL'', ascii ''TSLA'']"
    by code_simp
  from extract_mentions_allowed_not_ambiguous
    [of ascii_tables "ascii ''Buy $AAPL or go all-in on TSLA!''"
        "{ascii ''AAPL'', ascii ''TSLA'', ascii ''ON''}"]
  show ?thesis unfolding r by simp
qed

text \<open>
  C3. \<open>extract_mentions\<close> returns one list element per matching occurrence, in the
  order of the text: its result is the list of the token candidates of the upper-cased
  text, from left to right, with the candidates outside the whitelist and the ambiguous
  ones left out; so a whitelisted, non-ambiguous symbol that occurs \<open>k\<close> times as a
  token candidate is in the result \<open>k\<close> times.
\<close>

theorem extract_mentions_per_occurrence:
  "extract_mentions U text_in allowed
     = [m \<leftarrow> token_candidates U (upper U text_in). m \<in> allowed \<and> m \<notin> AMBIGUOUS]
   \<and> (s \<in> allowed \<and> s \<notin> AMBIGUOUS \<longrightarrow>
        count_list (extract_mentions U text_in allowed) s
          = count_list (token_candidates U (upper U text_in)) s)"
  by (simp add: extract_mentions_def findall_eq_token_candidates count_list_filter)

theorem extract_mentions_per_occurrence_witness:
  "ascii ''TSLA'' \<in> {ascii ''AAPL'', ascii ''TSLA'', ascii ''ON''}
   \<and> ascii ''TSLA'' \<notin> AMBIGUOUS
   \<and> token_candidates ascii_tables (upper ascii_tables (ascii ''TSLA, $tsla on AAPL; Tsla!''))
        = map ascii [''TSLA'', ''TSLA'', ''ON'', ''AAPL'', ''TSLA'']
   \<and> extract_mentions ascii_tables (ascii ''TSLA, $tsla on AAPL; Tsla!'')
        {ascii ''AAPL'', ascii ''TSLA'', ascii ''ON''}
        = map ascii [''TSLA'', ''TSLA'', ''AAPL'', ''TSLA'']
   \<and> count_list (extract_mentions ascii_tables (ascii ''TSLA, $tsla on AAPL; Tsla!'')
        {ascii ''AAPL'', ascii ''TSLA'', ascii ''ON''}) (ascii ''TSLA'') = 3"
proof -
  have a: "ascii ''TSLA'' \<in> {ascii ''AAPL'', ascii ''TSLA'', ascii ''ON''}" by simp
  have b: "ascii ''TSLA'' \<notin> AMBIGUOUS" by code_simp
  have c: "token_candidates ascii_tables (upper ascii_tables (ascii ''TSLA, $tsla on AAPL; Tsla!''))
        = map ascii [''TSLA'', ''TSLA'', ''ON'', ''AAPL'', ''TSLA'']" by code_simp
  have d: "count_list (map ascii [''TSLA'', ''TSLA'', ''ON'', ''AAPL'', ''TSLA''])
             (ascii ''TSLA'') = 3"
    by code_simp
  have e: "[m \<leftarrow> map ascii [''TSLA'', ''TSLA'', ''ON'', ''AAPL'', ''TSLA''].
             m \<in> {ascii ''AAPL'', ascii ''TSLA'', ascii ''ON''} \<and> m \<notin> AMBIGUOUS]
           = map ascii [''TSLA'', ''TSLA'', ''AAPL'', ''TSLA'']"
    by code_simp
  from extract_mentions_per_occurrence
    [of ascii_tables "ascii ''TSLA, $tsla on AAPL; Tsla!''"
      "{ascii ''AAPL'', ascii ''TSLA'', ascii ''ON''}" "ascii ''TSLA''"]
  show ?thesis using a b unfolding c d e by (simp add: ascii_def)
qed

text \<open>
  C4, as claimed: the list returned for one text unit contains each symbol at most
  once. The list is not deduplicated: a symbol that occurs twice is returned twice.
\<close>

theorem extract_mentions_duplicates:
  "extract_mentions ascii_tables (ascii ''AAPL up, AAPL down'') {ascii ''AAPL''}
     = [ascii ''AAPL'', ascii ''AAPL'']
   \<and> \<not> distinct (extract_mentions ascii_tables (ascii ''AAPL up, AAPL down'') {ascii ''AAPL''})"
  by code_simp

text \<open>
  C4, amended: the list returned for one text unit contains each symbol at most once
  if and only if no whitelisted, non-ambiguous symbol occurs more than once as a token
  candidate in the text.
\<close>

theorem extract_mentions_distinct_iff:
  "distinct (extract_mentions U text_in allowed)
   \<longleftrightarrow> (\<forall>s. s \<in> allowed \<and> s \<notin> AMBIGUOUS \<longrightarrow>
          count_list (token_candidates U (upper U text_in)) s \<le> 1)"
  by (auto simp: extract_mentions_def findall_eq_token_candidates distinct_count_list
      count_list_filter)

theorem extract_mentions_distinct_iff_witness:
  "count_list (token_candidates ascii_tables (upper ascii_tables (ascii ''AAPL up, TSLA down'')))
     (ascii ''AAPL'') = 1
   \<and> count_list (token_candidates ascii_tables (upper ascii_tables (ascii ''AAPL up, TSLA down'')))
     (ascii ''TSLA'') = 1
   \<and> distinct (extract_mentions ascii_tables (ascii ''AAPL up, TSLA down'')
        {ascii ''AAPL'', ascii ''TSLA''})
   \<and> extract_mentions ascii_tables (ascii ''AAPL up, TSLA down'')
        {ascii ''AAPL'', ascii ''TSLA''} = [ascii ''AAPL'', ascii ''TSLA'']"
proof -
  have c1: "count_list (token_candidates ascii_tables
      (upper ascii_tables (ascii ''AAPL up, TSLA down''))) (ascii ''AAPL'') = 1"
    by code_simp
  have c2: "count_list (token_candidates ascii_tables
      (upper ascii_tables (ascii ''AAPL up, TSLA down''))) (ascii ''TSLA'') = 1"
    by code_simp
  have r: "extract_mentions ascii_tables (ascii ''AAPL up, TSLA down'')
        {ascii ''AAPL'', ascii ''TSLA''} = [ascii ''AAPL'', ascii ''TSLA'']"
    by code_simp
  have "\<forall>s. s \<in> {ascii ''AAPL'', ascii ''TSLA''} \<and> s \<notin> AMBIGUOUS \<longrightarrow>
      count_list (token_candidates ascii_tables
        (upper ascii_tables (ascii ''AAPL up, TSLA down''))) s \<le> 1"
    using c1 c2 by auto
  then have "distinct (extract_mentions ascii_tables (ascii ''AAPL up, TSLA down'')
        {ascii ''AAPL'', ascii ''TSLA''})"
    using extract_mentions_distinct_iff
      [of ascii_tables "ascii ''AAPL up, TSLA down''" "{ascii ''AAPL'', ascii ''TSLA''}"]
    by blast
  then show ?thesis using c1 c2 r by simp
qed

text \<open>
  C9. Every token that \<open>extract_mentions\<close> returns matches \<^verbatim>\<open>[A-Z]{1,5}\<close>: one to five
  uppercase ASCII letters, so no dollar sign (36) and no slash (47). A whitelist entry
  with a slash in it, such as the BRK/B that the whitelist builder accepts, is never
  returned.
\<close>

theorem extract_mentions_token_shape:
  "(\<forall>m \<in> set (extract_mentions U text_in allowed).
      1 \<le> length m \<and> length m \<le> 5 \<and> list_all is_AZ m \<and> 36 \<notin> set m \<and> 47 \<notin> set m)
   \<and> (\<forall>w. 47 \<in> set w \<longrightarrow> w \<notin> set (extract_mentions U text_in allowed))"
proof -
  have shape: "1 \<le> length m \<and> length m \<le> 5 \<and> list_all is_AZ m"
    if "m \<in> set (extract_mentions U text_in allowed)" for m
    using that
    by (auto simp: extract_mentions_def findall_eq_token_candidates token_candidates_def
        dest: candidates_from_shape)
  have no: "36 \<notin> set m \<and> 47 \<notin> set m" if "list_all is_AZ m" for m
    using that by (auto simp: list_all_iff is_AZ_def)
  show ?thesis using shape no by blast
qed

theorem extract_mentions_token_shape_witness:
  "extract_mentions ascii_tables (ascii ''Buy BRK/B, BRK.B or $AAPL'')
      {ascii ''BRK/B'', ascii ''AAPL''} = [ascii ''AAPL'']
   \<and> length (ascii ''AAPL'') = 4 \<and> list_all is_AZ (ascii ''AAPL'')
   \<and> 47 \<in> set (ascii ''BRK/B'')
   \<and> ascii ''BRK/B'' \<in> {ascii ''BRK/B'', ascii ''AAPL''}
   \<and> ascii ''BRK/B'' \<notin> set (extract_mentions ascii_tables (ascii ''Buy BRK/B, BRK.B or $AAPL'')
      {ascii ''BRK/B'', ascii ''AAPL''})"
proof -
  have r: "extract_mentions ascii_tables (ascii ''Buy BRK/B, BRK.B or $AAPL'')
      {ascii ''BRK/B'', ascii ''AAPL''} = [ascii ''AAPL'']"
    by code_simp
  have s: "47 \<in> set (ascii ''BRK/B'')" by (simp add: ascii_def)
  from extract_mentions_token_shape
    [of ascii_tables "ascii ''Buy BRK/B, BRK.B or $AAPL''" "{ascii ''BRK/B'', ascii ''AAPL''}"]
  have "ascii ''BRK/B'' \<notin> set (extract_mentions ascii_tables
      (ascii ''Buy BRK/B, BRK.B or $AAPL'') {ascii ''BRK/B'', ascii ''AAPL''})"
    and "list_all is_AZ (ascii ''AAPL'')" and "length (ascii ''AAPL'') \<le> 5"
    using s unfolding r by simp_all
  then show ?thesis using r s by (simp add: ascii_def)
qed

text \<open>
  C10. \<open>extract_mentions\<close> never returns T, F or K, whatever the text and the
  whitelist, since the three are in \<open>AMBIGUOUS\<close>; of the one-letter tickers of
  \<open>KEEP_SINGLE\<close> it can return O only, and it does return O for the text "O" and a
  whitelist that holds O.
\<close>

theorem extract_mentions_single_letters:
  "ascii ''T'' \<notin> set (extract_mentions U text_in allowed)
   \<and> ascii ''F'' \<notin> set (extract_mentions U text_in allowed)
   \<and> ascii ''K'' \<notin> set (extract_mentions U text_in allowed)
   \<and> (\<forall>s \<in> KEEP_SINGLE. s \<in> set (extract_mentions U text_in allowed) \<longrightarrow> s = ascii ''O'')
   \<and> (ascii ''O'' \<in> allowed \<longrightarrow> extract_mentions U (ascii ''O'') allowed = [ascii ''O''])"
proof -
  have amb: "ascii ''T'' \<in> AMBIGUOUS" "ascii ''F'' \<in> AMBIGUOUS" "ascii ''K'' \<in> AMBIGUOUS"
    by code_simp+
  have O: "ascii ''O'' \<notin> AMBIGUOUS" by code_simp
  have not_in: "s \<notin> set (extract_mentions U text_in allowed)" if "s \<in> AMBIGUOUS" for s
    using that by (simp add: extract_mentions_def)
  have keep: "s = ascii ''T'' \<or> s = ascii ''F'' \<or> s = ascii ''K'' \<or> s = ascii ''O''"
    if "s \<in> KEEP_SINGLE" for s
    using that by (auto simp: KEEP_SINGLE_def)
  have cand: "token_candidates U (upper U (ascii ''O'')) = [ascii ''O'']"
    by (simp add: token_candidates_def candidate_here_def starts_candidate_def
        word_boundary_def is_word_def is_AZ_def is_az_def upper_def upper_cp_def ascii_def
        upt_rec)
  have ret: "extract_mentions U (ascii ''O'') allowed = [ascii ''O'']" if "ascii ''O'' \<in> allowed"
    using that O by (simp add: extract_mentions_def findall_eq_token_candidates cand)
  show ?thesis using amb not_in keep ret by blast
qed

theorem extract_mentions_single_letters_witness:
  "ascii ''O'' \<in> KEEP_SINGLE
   \<and> extract_mentions ascii_tables (ascii ''T and F, K or O?'') KEEP_SINGLE = [ascii ''O'']
   \<and> extract_mentions ascii_tables (ascii ''O'') KEEP_SINGLE = [ascii ''O'']"
proof -
  have k: "ascii ''O'' \<in> KEEP_SINGLE" by (simp add: KEEP_SINGLE_def)
  have r: "extract_mentions ascii_tables (ascii ''T and F, K or O?'') KEEP_SINGLE = [ascii ''O'']"
    by code_simp
  from extract_mentions_single_letters [of ascii_tables "ascii ''T and F, K or O?''" KEEP_SINGLE]
  show ?thesis using k r by simp
qed


section \<open>Properties of the whitelist cleaner\<close>

text \<open>The loop of \<open>clean\<close> collects the normalised symbols that a round keeps.\<close>

lemma clean_fold:
  "fold (\<lambda>symbol out.
           let symb = normalise U symbol
           in if clean_keeps U z symb then insert symb out else out) raw acc
   = acc \<union> {normalise U x | x. x \<in> set raw \<and> clean_keeps U z (normalise U x)}"
  by (induction raw arbitrary: acc) (auto simp: Let_def)

lemma clean_eq:
  "clean U z raw = {normalise U x | x. x \<in> set raw \<and> clean_keeps U z (normalise U x)}"
  by (simp add: clean_def clean_fold)

lemma slash_not_manual_stop: "47 \<in> set symb \<Longrightarrow> symb \<notin> MANUAL_STOP"
  by (auto simp: MANUAL_STOP_def ascii_def)

lemma slash_not_keep_single: "47 \<in> set symb \<Longrightarrow> symb \<notin> KEEP_SINGLE"
  by (auto simp: KEEP_SINGLE_def ascii_def)

lemma partition_slash_single:
  "length symb = 1 \<Longrightarrow> 47 \<in> set symb \<Longrightarrow> partition_slash symb = ([], [])"
  by (cases symb) (auto simp: partition_slash_def)

lemma clean_keeps_slash:
  assumes "47 \<in> set symb"
  shows "clean_keeps U z symb \<longleftrightarrow>
     (case partition_slash symb of
        (left, right) \<Rightarrow> 1 \<le> length left \<and> length left \<le> 4 \<and> length right = 1)
     \<and> \<not> looks_like_word U z symb"
proof (cases "length symb = 1")
  case True
  with assms show ?thesis
    by (simp add: clean_keeps_def slash_not_keep_single partition_slash_single)
next
  case False
  with assms show ?thesis
    by (auto simp: clean_keeps_def slash_not_manual_stop split: prod.splits)
qed

text \<open>
  C2, as claimed: a string whose normal form holds exactly one slash is accepted if and
  only if its left segment matches \<^verbatim>\<open>[A-Z]{1,4}\<close> and its right segment matches
  \<^verbatim>\<open>[A-Z]{1}\<close>. Two inputs show that neither direction holds. The segments of
  "ZQ1/7" are not letters: \<open>clean\<close> checks the lengths of the segments only, and the
  test \<^verbatim>\<open>sym.isalpha() or "/" in sym\<close> lets every symbol with a slash through, so
  the symbol is accepted where the frequency table does not know it. The segments of
  "AND/A" are letters, and \<open>clean\<close> still drops the symbol where the frequency table
  gives its lower-cased form a score above 4.
\<close>

theorem clean_slash_counterexample:
  "count_list (normalise ascii_tables (ascii '' zq1.7 '')) 47 = 1
   \<and> normalise ascii_tables (ascii '' zq1.7 '') = ascii ''ZQ1/7''
   \<and> ascii ''ZQ1/7'' \<in> clean ascii_tables (\<lambda>w. 0) [ascii '' zq1.7 '']
   \<and> \<not> slash_shape (ascii ''ZQ1/7'')
   \<and> count_list (normalise ascii_tables (ascii ''and.a'')) 47 = 1
   \<and> normalise ascii_tables (ascii ''and.a'') = ascii ''AND/A''
   \<and> slash_shape (ascii ''AND/A'')
   \<and> ascii ''AND/A'' \<notin> clean ascii_tables (\<lambda>w. if w = ascii ''and/a'' then 7 else 0)
        [ascii ''and.a'']"
  by code_simp

text \<open>
  C2, amended: for an input whose normal form holds exactly one slash, an accepted
  symbol has a left segment of 1 to 4 code points and a right segment of exactly one
  and is not classified as a common word by the frequency filter; and where the left
  segment matches \<^verbatim>\<open>[A-Z]{1,4}\<close> and the right segment \<^verbatim>\<open>[A-Z]{1}\<close>, the symbol
  is accepted if and only if the frequency filter does not classify it as a common word.
\<close>

theorem clean_slash_symbols:
  assumes "symbol \<in> set raw" and "symb = normalise U symbol" and "count_list symb 47 = 1"
  shows "(symb \<in> clean U zipf_frequency raw \<longrightarrow>
            (case partition_slash symb of
               (left, right) \<Rightarrow> 1 \<le> length left \<and> length left \<le> 4 \<and> length right = 1)
            \<and> \<not> looks_like_word U zipf_frequency symb)
         \<and> (slash_shape symb \<longrightarrow>
              (symb \<in> clean U zipf_frequency raw \<longleftrightarrow> \<not> looks_like_word U zipf_frequency symb))"
proof -
  from assms(3) have sl: "47 \<in> set symb"
    by (metis count_list_0_iff zero_neq_one)
  from assms(1,2) have mem: "symb \<in> clean U zipf_frequency raw \<longleftrightarrow> clean_keeps U zipf_frequency symb"
    by (auto simp: clean_eq)
  show ?thesis
    unfolding mem clean_keeps_slash[OF sl] by (auto simp: slash_shape_def split: prod.splits)
qed


theorem clean_slash_symbols_witness:
  "ascii ''brk.b'' \<in> set [ascii ''aapl'', ascii ''brk.b'']
   \<and> ascii ''BRK/B'' = normalise ascii_tables (ascii ''brk.b'')
   \<and> count_list (ascii ''BRK/B'') 47 = 1
   \<and> slash_shape (ascii ''BRK/B'')
   \<and> \<not> looks_like_word ascii_tables (\<lambda>w. 0) (ascii ''BRK/B'')
   \<and> ascii ''BRK/B'' \<in> clean ascii_tables (\<lambda>w. 0) [ascii ''aapl'', ascii ''brk.b'']"
proof -
  have a: "ascii ''brk.b'' \<in> set [ascii ''aapl'', ascii ''brk.b'']" by simp
  have b: "ascii ''BRK/B'' = normalise ascii_tables (ascii ''brk.b'')" by code_simp
  have c: "count_list (ascii ''BRK/B'') 47 = 1" by code_simp
  have d: "slash_shape (ascii ''BRK/B'')" by code_simp
  have e: "\<not> looks_like_word ascii_tables (\<lambda>w. 0) (ascii ''BRK/B'')"
    by (simp add: looks_like_word_def)
  from clean_slash_symbols [OF a b c, of "\<lambda>w. 0"] d e
  have "ascii ''BRK/B'' \<in> clean ascii_tables (\<lambda>w. 0) [ascii ''aapl'', ascii ''brk.b'']"
    by blast
  with a b c d e show ?thesis by blast
qed


section \<open>Properties of the retry decorator\<close>

text \<open>While the calls raise an \<^verbatim>\<open>Exception\<close>, \<^verbatim>\<open>time.sleep\<close> returns and attempts
  are left, the loop goes on.\<close>

lemma retry_loop_skip_failures:
  assumes "\<forall>j. att \<le> j \<and> j < k \<longrightarrow> (\<exists>x. fn j = Exception x) \<and> sleep (fmul pause j) = None"
    and "att \<le> k" and "int k \<le> max_tries" and "calls st + 1 = att"
  shows "retry_loop fmul sleep fn max_tries pause att st
         = retry_loop fmul sleep fn max_tries pause k
             (st\<lparr>calls := k - 1, sleeps := sleeps st @ map (fmul pause) [att..<k]\<rparr>)"
  using assms
proof (induction "k - att" arbitrary: att st)
  case 0
  then have "att = k" by simp
  moreover from 0 have "st\<lparr>calls := k - 1\<rparr> = st" by simp
  ultimately show ?case by simp
next
  case (Suc n)
  then have lt: "att < k" by simp
  with Suc.prems obtain x where x: "fn att = Exception x" and sl: "sleep (fmul pause att) = None"
    by auto
  let ?st' = "st\<lparr>calls := calls st + 1, sleeps := sleeps st @ [fmul pause att]\<rparr>"
  have step: "retry_loop fmul sleep fn max_tries pause att st
              = retry_loop fmul sleep fn max_tries pause (att + 1) ?st'"
    using lt Suc.prems(3,4) x sl
    by (subst retry_loop.simps) (auto simp: Let_def)
  have "retry_loop fmul sleep fn max_tries pause (att + 1) ?st'
        = retry_loop fmul sleep fn max_tries pause k
            (?st'\<lparr>calls := k - 1,
                   sleeps := sleeps ?st' @ map (fmul pause) [att + 1..<k]\<rparr>)"
  proof (rule Suc.hyps(1))
    show "n = k - (att + 1)" using Suc.hyps(2) by simp
    show "\<forall>j. att + 1 \<le> j \<and> j < k \<longrightarrow>
        (\<exists>x. fn j = Exception x) \<and> sleep (fmul pause j) = None"
      using Suc.prems(1) by auto
    show "att + 1 \<le> k" using lt by simp
    show "int k \<le> max_tries" by (rule Suc.prems(3))
    show "calls ?st' + 1 = att + 1" using Suc.prems(4) by simp
  qed
  also have "\<dots> = retry_loop fmul sleep fn max_tries pause k
        (st\<lparr>calls := k - 1, sleeps := sleeps st @ map (fmul pause) [att..<k]\<rparr>)"
    using lt by (simp add: upt_conv_Cons)
  finally show ?case using step by simp
qed

lemma retry_reaches:
  assumes "1 \<le> k" and "int k \<le> max_tries"
    and "\<forall>j. 1 \<le> j \<and> j < k \<longrightarrow> (\<exists>x. fn j = Exception x) \<and> sleep (fmul pause j) = None"
  shows "retry fmul sleep max_tries pause fn
         = retry_loop fmul sleep fn max_tries pause k
             \<lparr>calls = k - 1, sleeps = map (fmul pause) [1..<k]\<rparr>"
  unfolding retry_def
  using retry_loop_skip_failures[of 1 k fn sleep fmul pause max_tries "\<lparr>calls = 0, sleeps = []\<rparr>"]
    assms
  by simp

text \<open>With no attempt allowed the loop body never runs: the wrapper calls nothing and
  returns \<^verbatim>\<open>None\<close>.\<close>

lemma retry_no_attempt:
  "max_tries < 1 \<Longrightarrow>
   retry fmul sleep max_tries pause fn = (ReturnedNone, \<lparr>calls = 0, sleeps = []\<rparr>)"
  by (simp add: retry_def retry_loop.simps)

text \<open>
  C7. Let the calls before the call \<open>k\<close> raise an \<^verbatim>\<open>Exception\<close>, and let
  \<^verbatim>\<open>time.sleep\<close> return for the delays between them. If the call \<open>k\<close>, one of the
  first \<open>max_tries\<close>, succeeds, the wrapper returns its result and has made exactly
  \<open>k\<close> calls. If \<open>k\<close> is \<open>max_tries\<close> and the call \<open>k\<close> raises too, so that all
  \<open>max_tries\<close> calls raise, the wrapper raises the exception of this final attempt. In
  both cases the delay passed to \<^verbatim>\<open>time.sleep\<close> between attempt \<open>a\<close> and attempt
  \<open>a + 1\<close> is \<^verbatim>\<open>pause * a\<close>.
\<close>

theorem retry_contract:
  "(1 \<le> k \<and> int k \<le> max_tries \<and> fn k = Value v
      \<and> (\<forall>j. 1 \<le> j \<and> j < k \<longrightarrow> (\<exists>x. fn j = Exception x) \<and> sleep (fmul pause j) = None)
     \<longrightarrow> retry fmul sleep max_tries pause fn
           = (Returned v, \<lparr>calls = k, sleeps = map (fmul pause) [1..<k]\<rparr>))
   \<and> (1 \<le> k \<and> int k = max_tries \<and> (fn k = Exception e \<or> fn k = BaseException e)
      \<and> (\<forall>j. 1 \<le> j \<and> j < k \<longrightarrow> (\<exists>x. fn j = Exception x) \<and> sleep (fmul pause j) = None)
     \<longrightarrow> retry fmul sleep max_tries pause fn
           = (Raised e, \<lparr>calls = k, sleeps = map (fmul pause) [1..<k]\<rparr>))"
proof (intro conjI impI)
  assume a: "1 \<le> k \<and> int k \<le> max_tries \<and> fn k = Value v
      \<and> (\<forall>j. 1 \<le> j \<and> j < k \<longrightarrow> (\<exists>x. fn j = Exception x) \<and> sleep (fmul pause j) = None)"
  then have "retry fmul sleep max_tries pause fn
         = retry_loop fmul sleep fn max_tries pause k
             \<lparr>calls = k - 1, sleeps = map (fmul pause) [1..<k]\<rparr>"
    by (intro retry_reaches) simp_all
  also have "\<dots> = (Returned v, \<lparr>calls = k, sleeps = map (fmul pause) [1..<k]\<rparr>)"
    using a by (subst retry_loop.simps) (simp add: Let_def)
  finally show "retry fmul sleep max_tries pause fn
           = (Returned v, \<lparr>calls = k, sleeps = map (fmul pause) [1..<k]\<rparr>)" .
next
  assume a: "1 \<le> k \<and> int k = max_tries \<and> (fn k = Exception e \<or> fn k = BaseException e)
      \<and> (\<forall>j. 1 \<le> j \<and> j < k \<longrightarrow> (\<exists>x. fn j = Exception x) \<and> sleep (fmul pause j) = None)"
  then have "retry fmul sleep max_tries pause fn
         = retry_loop fmul sleep fn max_tries pause k
             \<lparr>calls = k - 1, sleeps = map (fmul pause) [1..<k]\<rparr>"
    by (intro retry_reaches) simp_all
  also have "\<dots> = (Raised e, \<lparr>calls = k, sleeps = map (fmul pause) [1..<k]\<rparr>)"
    using a by (subst retry_loop.simps) (auto simp: Let_def)
  finally show "retry fmul sleep max_tries pause fn
           = (Raised e, \<lparr>calls = k, sleeps = map (fmul pause) [1..<k]\<rparr>)" .
qed

theorem retry_contract_witness:
  "small_sleep (small_fmul 3 1) = None \<and> small_sleep (small_fmul 3 2) = None
   \<and> retry small_fmul small_sleep 3 3 (\<lambda>k. if k < 3 then Exception (500 + k) else Value (7::nat))
       = (Returned 7, \<lparr>calls = 3, sleeps = [3, 6]\<rparr>)
   \<and> retry small_fmul small_sleep 3 3 (\<lambda>k. Exception (500 + k) :: (nat, nat) call)
       = (Raised 503, \<lparr>calls = 3, sleeps = [3, 6]\<rparr>)"
proof -
  have u: "[Suc 0..<3] = [Suc 0, 2]" by (simp add: upt_conv_Cons)
  have s: "small_sleep (small_fmul 3 1) = None" "small_sleep (small_fmul 3 2) = None"
    by (simp_all add: small_sleep_def small_fmul_def)
  have s': "\<forall>j. 1 \<le> j \<and> j < 3 \<longrightarrow> small_sleep (small_fmul 3 j) = None"
    by (simp add: small_sleep_def small_fmul_def)
  have "retry small_fmul small_sleep 3 3
          (\<lambda>k. if k < 3 then Exception (500 + k) else Value (7::nat))
       = (Returned 7, \<lparr>calls = 3, sleeps = [3, 6]\<rparr>)"
    using retry_contract [of 3 3 "\<lambda>k. if k < 3 then Exception (500 + k) else Value (7::nat)" 7
        small_sleep small_fmul 3] s'
    by (simp add: u small_fmul_def)
  moreover have "retry small_fmul small_sleep 3 3 (\<lambda>k. Exception (500 + k) :: (nat, nat) call)
       = (Raised 503, \<lparr>calls = 3, sleeps = [3, 6]\<rparr>)"
    using retry_contract [of 3 3 "\<lambda>k. Exception (500 + k) :: (nat, nat) call" _
        small_sleep small_fmul 3 503] s'
    by (simp add: u small_fmul_def)
  ultimately show ?thesis using s by simp
qed


section \<open>Properties of the verification pass\<close>

lemma verify_fold:
  "fold (\<lambda>(symb, is_ok) good. if is_ok then insert symb good else good)
        (zip symbols (map (ok look) symbols)) acc
   = acc \<union> {s \<in> set symbols. look s = Truthy}"
  by (induction symbols arbitrary: acc) (auto simp: ok_def split: lookup.splits)

text \<open>
  C8. Where yfinance is not importable, \<open>verify_with_yf\<close> returns its input set
  unchanged. Otherwise it returns exactly the input symbols whose lookup gives a truthy
  result: a lookup that raises or gives a falsy result leaves out that symbol only, and
  the batch always ends with a set. The result is a subset of the input in both cases.
\<close>

theorem verify_with_yf_result:
  "verify_with_yf None symbols 32 = Inr (set symbols)
   \<and> verify_with_yf (Some look) symbols 32 = Inr {s \<in> set symbols. look s = Truthy}
   \<and> (\<exists>good. verify_with_yf yf symbols 32 = Inr good \<and> good \<subseteq> set symbols)"
proof -
  have a: "verify_with_yf None symbols 32 = Inr (set symbols)"
    by (simp add: verify_with_yf_def)
  have b: "verify_with_yf (Some l) symbols 32 = Inr {s \<in> set symbols. l s = Truthy}" for l
    by (simp add: verify_with_yf_def verify_fold)
  have "\<exists>good. verify_with_yf yf symbols 32 = Inr good \<and> good \<subseteq> set symbols"
    by (cases yf) (auto simp: a b)
  with a b show ?thesis by blast
qed

theorem verify_with_yf_result_witness:
  "verify_with_yf (Some (\<lambda>s. if s = ''AAPL'' then Truthy else if s = ''XXXX'' then LookupException
       else if s = ''TSLA'' then Truthy else Falsy)) [''AAPL'', ''XXXX'', ''QQQQ'', ''TSLA''] 32
     = Inr {''AAPL'', ''TSLA''}
   \<and> verify_with_yf None [''AAPL'', ''XXXX'', ''QQQQ'', ''TSLA''] 32
     = Inr {''AAPL'', ''XXXX'', ''QQQQ'', ''TSLA''}"
  using verify_with_yf_result [of "[''AAPL'', ''XXXX'', ''QQQQ'', ''TSLA'']"
      "\<lambda>s. if s = ''AAPL'' then Truthy else if s = ''XXXX'' then LookupException
       else if s = ''TSLA'' then Truthy else Falsy"]
  by auto


section \<open>Properties of the aggregator\<close>

subsection \<open>The daily roll-up\<close>

lemma overwrite_counts_key [simp]: "ds_key (overwrite_counts row r) = ds_key r"
  by (simp add: overwrite_counts_def ds_key_def)

lemma overwrite_counts_has [simp]: "has_counts row (overwrite_counts row r)"
  by (simp add: overwrite_counts_def has_counts_def)

lemma overwrite_counts_id: "has_counts row r \<Longrightarrow> overwrite_counts row r = r"
  by (simp add: overwrite_counts_def has_counts_def)

lemma upsert_stat_keys:
  "map ds_key (upsert_stat fresh row tbl)
   = (if sr_key row \<in> set (map ds_key tbl) then map ds_key tbl
      else map ds_key tbl @ [sr_key row])"
proof (cases "\<exists>r \<in> set tbl. ds_key r = sr_key row")
  case True
  then have "sr_key row \<in> set (map ds_key tbl)" by force
  moreover have "map ds_key (map (\<lambda>r. if ds_key r = sr_key row then overwrite_counts row r
      else r) tbl) = map ds_key tbl"
    by (induction tbl) simp_all
  then have "map ds_key (upsert_stat fresh row tbl) = map ds_key tbl"
    using True by (simp only: upsert_stat_def if_True)
  ultimately show ?thesis by simp
next
  case False
  then have "sr_key row \<notin> set (map ds_key tbl)" by force
  then show ?thesis using False by (simp add: upsert_stat_def ds_key_def sr_key_def)
qed

lemma upsert_stat_distinct:
  "distinct (map ds_key tbl) \<Longrightarrow> distinct (map ds_key (upsert_stat fresh row tbl))"
  by (simp add: upsert_stat_keys)

lemma fold_upsert_distinct:
  "distinct (map ds_key tbl) \<Longrightarrow> distinct (map ds_key (fold (upsert_stat fresh) rows tbl))"
  by (induction rows arbitrary: tbl) (simp_all add: upsert_stat_distinct)

lemma upsert_stat_settles: "settled row (upsert_stat fresh row tbl)"
proof (cases "\<exists>r \<in> set tbl. ds_key r = sr_key row")
  case True
  then obtain r0 where r0: "r0 \<in> set tbl" "ds_key r0 = sr_key row" by blast
  let ?f = "\<lambda>r. if ds_key r = sr_key row then overwrite_counts row r else r"
  have tbl': "upsert_stat fresh row tbl = map ?f tbl"
    using True by (simp add: upsert_stat_def)
  have "?f r0 \<in> set (map ?f tbl)" using r0(1) by (simp only: set_map) (rule imageI)
  moreover have "ds_key (?f r0) = sr_key row" using r0(2) by simp
  ultimately have ex: "\<exists>r \<in> set (map ?f tbl). ds_key r = sr_key row" by blast
  have all: "\<forall>r \<in> set (map ?f tbl). ds_key r = sr_key row \<longrightarrow> has_counts row r"
    by auto
  from ex all show ?thesis unfolding tbl' settled_def by blast
next
  case False
  then have tbl': "upsert_stat fresh row tbl
      = tbl @ [\<lparr>ds_symbol = sr_symbol row, ds_date = sr_date row,
                   ds_mention_count = Some (sr_mention_count row),
                   ds_post_mentions = Some (sr_post_mentions row),
                   ds_comment_mentions = Some (sr_comment_mentions row),
                   ds_unique_authors = Some (sr_unique_authors row),
                   ds_rest = fresh tbl\<rparr>]"
    by (simp add: upsert_stat_def)
  show ?thesis unfolding tbl' settled_def using False
    by (auto simp: ds_key_def sr_key_def has_counts_def)
qed

lemma upsert_stat_other:
  assumes "settled row tbl" and "sr_key row' \<noteq> sr_key row"
  shows "settled row (upsert_stat fresh row' tbl)"
proof (cases "\<exists>r \<in> set tbl. ds_key r = sr_key row'")
  case True
  let ?f = "\<lambda>r. if ds_key r = sr_key row' then overwrite_counts row' r else r"
  have tbl': "upsert_stat fresh row' tbl = map ?f tbl"
    using True by (simp add: upsert_stat_def)
  have same: "?f r = r" if "ds_key r = sr_key row" for r
    using that assms(2) by simp
  from assms(1) obtain r0 where r0: "r0 \<in> set tbl" "ds_key r0 = sr_key row"
    by (auto simp: settled_def)
  then have "r0 \<in> set (map ?f tbl)" using same[of r0] by force
  with r0 have ex: "\<exists>r \<in> set (map ?f tbl). ds_key r = sr_key row" by blast
  have all: "has_counts row r" if "r \<in> set (map ?f tbl)" "ds_key r = sr_key row" for r
  proof -
    from that(1) obtain q where q: "q \<in> set tbl" "r = ?f q" by auto
    have "ds_key q = ds_key r" using q(2) by simp
    with that(2) have "ds_key q = sr_key row" by simp
    with q same[of q] assms(1) show ?thesis by (auto simp: settled_def)
  qed
  from ex all show ?thesis unfolding tbl' settled_def by blast
next
  case False
  then have tbl': "upsert_stat fresh row' tbl
      = tbl @ [\<lparr>ds_symbol = sr_symbol row', ds_date = sr_date row',
                   ds_mention_count = Some (sr_mention_count row'),
                   ds_post_mentions = Some (sr_post_mentions row'),
                   ds_comment_mentions = Some (sr_comment_mentions row'),
                   ds_unique_authors = Some (sr_unique_authors row'),
                   ds_rest = fresh tbl\<rparr>]"
    by (simp add: upsert_stat_def)
  show ?thesis unfolding tbl' using assms
    by (auto simp: settled_def ds_key_def sr_key_def)
qed

lemma upsert_stat_settled_id:
  assumes "settled row tbl"
  shows "upsert_stat fresh row tbl = tbl"
proof -
  from assms have ex: "\<exists>r \<in> set tbl. ds_key r = sr_key row" by (simp add: settled_def)
  have "map (\<lambda>r. if ds_key r = sr_key row then overwrite_counts row r else r) tbl
        = map (\<lambda>r. r) tbl"
  proof (rule map_cong[OF refl])
    fix r assume "r \<in> set tbl"
    with assms show "(if ds_key r = sr_key row then overwrite_counts row r else r) = r"
      by (auto simp: settled_def intro: overwrite_counts_id)
  qed
  with ex show ?thesis by (simp add: upsert_stat_def)
qed

lemma fold_upsert_keeps_settled:
  "settled row tbl \<Longrightarrow> sr_key row \<notin> sr_key ` set rows \<Longrightarrow>
   settled row (fold (upsert_stat fresh) rows tbl)"
proof (induction rows arbitrary: tbl)
  case Nil
  then show ?case by simp
next
  case (Cons a rows)
  from Cons.prems have "settled row (upsert_stat fresh a tbl)"
    by (intro upsert_stat_other) auto
  with Cons show ?case by simp
qed

lemma fold_upsert_settles:
  "distinct (map sr_key rows) \<Longrightarrow> row \<in> set rows \<Longrightarrow>
   settled row (fold (upsert_stat fresh) rows tbl)"
proof (induction rows arbitrary: tbl)
  case Nil
  then show ?case by simp
next
  case (Cons a rows)
  show ?case
  proof (cases "row = a")
    case True
    have "settled a (upsert_stat fresh a tbl)" by (rule upsert_stat_settles)
    moreover from Cons.prems(1) have "sr_key a \<notin> sr_key ` set rows" by simp
    ultimately show ?thesis using True by (simp add: fold_upsert_keeps_settled)
  next
    case False
    with Cons show ?thesis by simp
  qed
qed

lemma fold_upsert_settled_id:
  "(\<And>row. row \<in> set rows \<Longrightarrow> settled row tbl) \<Longrightarrow> fold (upsert_stat fresh) rows tbl = tbl"
  by (induction rows) (simp_all add: upsert_stat_settled_id)

lemma select_stats_keys: "map sr_key (select_stats d today now)
    = map (\<lambda>s. (s, today)) (sort (remdups (map m_symbol [m \<leftarrow> mentions d. m_created m = Some now])))"
  by (simp add: select_stats_def group_row_def sr_key_def Let_def)

lemma select_stats_distinct: "distinct (map sr_key (select_stats d today now))"
  unfolding select_stats_keys by (simp add: distinct_map inj_on_def)

lemma author_of_update: "author_of (d\<lparr>daily_stats := x\<rparr>) = author_of d"
  by (rule ext) (simp add: author_of_def split: option.splits)

lemma group_row_update: "group_row (d\<lparr>daily_stats := x\<rparr>) = group_row d"
  by (intro ext) (simp add: group_row_def author_of_update)

lemma select_stats_update:
  "select_stats (d\<lparr>daily_stats := x\<rparr>) today now = select_stats d today now"
  by (simp add: select_stats_def group_row_update)

text \<open>
  C5. \<open>update_daily_stats\<close> is idempotent: a second run against the same mentions, on
  the same date, leaves the database as the first run left it, whatever the database
  would fill into a new row. The keys (symbol, date) of \<open>daily_stats\<close> stay distinct,
  so there is one row per key, and after a run the row of each symbol mentioned today
  carries the counts computed from the mentions: overwritten, not incremented.
\<close>

theorem update_daily_stats_idempotent:
  "update_daily_stats fresh' today now (update_daily_stats fresh today now d)
     = update_daily_stats fresh today now d
   \<and> (distinct (map ds_key (daily_stats d)) \<longrightarrow>
        distinct (map ds_key (daily_stats (update_daily_stats fresh today now d))))
   \<and> (\<forall>row \<in> set (select_stats d today now).
        settled row (daily_stats (update_daily_stats fresh today now d)))"
proof -
  let ?rows = "select_stats d today now"
  let ?tbl = "fold (upsert_stat fresh) ?rows (daily_stats d)"
  have s: "settled row ?tbl" if "row \<in> set ?rows" for row
    using select_stats_distinct that by (rule fold_upsert_settles)
  then have "fold (upsert_stat fresh') ?rows ?tbl = ?tbl"
    by (rule fold_upsert_settled_id)
  then have 1: "update_daily_stats fresh' today now (update_daily_stats fresh today now d)
     = update_daily_stats fresh today now d"
    by (simp add: update_daily_stats_def select_stats_update)
  have 2: "distinct (map ds_key (daily_stats d)) \<longrightarrow>
        distinct (map ds_key (daily_stats (update_daily_stats fresh today now d)))"
    by (simp add: update_daily_stats_def fold_upsert_distinct)
  have 3: "\<forall>row \<in> set ?rows. settled row (daily_stats (update_daily_stats fresh today now d))"
    using s by (simp add: update_daily_stats_def)
  from 1 2 3 show ?thesis by blast
qed


theorem update_daily_stats_idempotent_witness:
  "distinct (map ds_key (daily_stats example_db))
   \<and> daily_stats (update_daily_stats next_id ''2025-08-20'' ''2025-08-20'' example_db)
       = [\<lparr>ds_symbol = ''AAPL'', ds_date = ''2025-08-20'', ds_mention_count = Some 3,
           ds_post_mentions = Some 1, ds_comment_mentions = Some 2,
           ds_unique_authors = Some 1, ds_rest = 1\<rparr>,
          \<lparr>ds_symbol = ''TSLA'', ds_date = ''2025-08-20'', ds_mention_count = Some 1,
           ds_post_mentions = Some 1, ds_comment_mentions = Some 0,
           ds_unique_authors = Some 1, ds_rest = 2\<rparr>]
   \<and> distinct (map ds_key
         (daily_stats (update_daily_stats next_id ''2025-08-20'' ''2025-08-20'' example_db)))
   \<and> update_daily_stats next_id ''2025-08-20'' ''2025-08-20''
         (update_daily_stats next_id ''2025-08-20'' ''2025-08-20'' example_db)
       = update_daily_stats next_id ''2025-08-20'' ''2025-08-20'' example_db"
proof -
  have a: "distinct (map ds_key (daily_stats example_db))" by code_simp
  have b: "daily_stats (update_daily_stats next_id ''2025-08-20'' ''2025-08-20'' example_db)
       = [\<lparr>ds_symbol = ''AAPL'', ds_date = ''2025-08-20'', ds_mention_count = Some 3,
           ds_post_mentions = Some 1, ds_comment_mentions = Some 2,
           ds_unique_authors = Some 1, ds_rest = 1\<rparr>,
          \<lparr>ds_symbol = ''TSLA'', ds_date = ''2025-08-20'', ds_mention_count = Some 1,
           ds_post_mentions = Some 1, ds_comment_mentions = Some 0,
           ds_unique_authors = Some 1, ds_rest = 2\<rparr>]"
    by code_simp
  from update_daily_stats_idempotent
    [of next_id "''2025-08-20''" "''2025-08-20''" next_id example_db] a
  have "distinct (map ds_key
         (daily_stats (update_daily_stats next_id ''2025-08-20'' ''2025-08-20'' example_db)))"
    and "update_daily_stats next_id ''2025-08-20'' ''2025-08-20''
         (update_daily_stats next_id ''2025-08-20'' ''2025-08-20'' example_db)
       = update_daily_stats next_id ''2025-08-20'' ''2025-08-20'' example_db"
    by blast+
  with a b show ?thesis by blast
qed

subsection \<open>The alerts\<close>

text \<open>The id that the database gives a new row is the id of no row of the table, so
  the insertion never meets a conflict and \<^verbatim>\<open>OR IGNORE\<close> never skips a row.\<close>

lemma next_rowid_unused: "r \<in> set tbl \<Longrightarrow> ta_id r \<noteq> next_rowid tbl"
proof -
  assume r: "r \<in> set tbl"
  then have "ta_id r \<in> set (map ta_id tbl)" by simp
  then have "ta_id r \<le> Max (set (map ta_id tbl))" by (intro Max_ge) simp_all
  moreover from r have "tbl \<noteq> []" by auto
  ultimately show ?thesis by (simp add: next_rowid_def)
qed

lemma insert_alert_appends:
  "insert_or_ignore pk_conflict (alert_row (next_rowid tbl) rest now threshold hit) tbl
   = tbl @ [alert_row (next_rowid tbl) rest now threshold hit]"
proof -
  have "ta_id (alert_row (next_rowid tbl) rest now threshold hit) = next_rowid tbl"
    by (cases hit) (simp add: alert_row_def)
  then have "\<not> (\<exists>r \<in> set tbl.
      pk_conflict r (alert_row (next_rowid tbl) rest now threshold hit))"
    using next_rowid_unused[of _ tbl] by (auto simp: pk_conflict_def)
  then show ?thesis by (simp add: insert_or_ignore_def)
qed

lemma alert_row_key: "alert_key (alert_row new_id rest now threshold hit) = (fst hit, now)"
  by (cases hit) (simp add: alert_row_def alert_key_def)

lemma fold_insert_alert_keys:
  "map alert_key
     (fold (\<lambda>hit tbl.
              insert_or_ignore pk_conflict
                (alert_row (next_rowid tbl) (fresh tbl) now threshold hit) tbl) hits tbl)
   = map alert_key tbl @ map (\<lambda>hit. (fst hit, now)) hits"
  by (induction hits arbitrary: tbl) (simp_all add: insert_alert_appends alert_row_key)

text \<open>Every run adds one row for every symbol of today that reaches the threshold,
  whatever alerts the table holds.\<close>

lemma update_trend_alerts_adds_every_hit:
  "map alert_key (trend_alerts (update_trend_alerts fresh now threshold d))
   = map alert_key (trend_alerts d) @ map (\<lambda>hit. (fst hit, now)) (select_hits d now threshold)"
  by (simp add: update_trend_alerts_def fold_insert_alert_keys)



end
